theory Spec2Isabelle
  imports Main "HOL-Library.Extended_Nat"
begin

section \<open>Data model\<close>

text \<open>
  The pattern-matching engine is Python. Strings are character lists, offsets are natural
  numbers, and every exception the code can raise is a value of \<open>error\<close>: an out-of-range
  subscript is \<open>IndexError\<close>, a rejected configuration value is \<open>ValueError\<close>.
\<close>

datatype error = IndexError | ValueError

text \<open>
  The mismatch count of the motif scanner is a Python int or \<open>float('inf')\<close>; it is an
  extended natural number here, with \<open>\<infinity>\<close> for "unreachable".
\<close>

type_synonym cost = enat

text \<open>The dataclass \<open>MatchResult\<close>.\<close>

record MatchResult =
  start_pos :: nat
  end_pos :: nat
  score :: nat
  pattern_type :: string
  explanation :: string

text \<open>
  The hidden state of an \<open>AdvancedPatternMatcher\<close> object: the dictionary \<open>stats\<close> (its
  three entries) and the two caches that the decorator \<open>lru_cache(maxsize=10000)\<close> attaches
  to \<open>wildcard_match\<close> and \<open>motif_distance\<close>. A cache is a list of entries, the most
  recently used first; its key is the argument tuple of the call.
\<close>

type_synonym call_key = "string \<times> string \<times> nat \<times> nat"

record matcher =
  calls :: nat
  cache_hits :: nat
  total_time :: nat
  wc_cache :: "(call_key \<times> bool) list"
  md_cache :: "(call_key \<times> cost) list"

definition init :: matcher where
  "init = \<lparr>calls = 0, cache_hits = 0, total_time = 0, wc_cache = [], md_cache = []\<rparr>"

definition maxsize :: nat where
  "maxsize = 10000"

text \<open>
  A cache hit returns the stored value and moves the entry to the front; a miss stores the
  computed value at the front and drops the least recently used entry beyond \<open>maxsize\<close>.
\<close>

definition lru_get :: "'k \<Rightarrow> ('k \<times> 'v) list \<Rightarrow> ('v \<times> ('k \<times> 'v) list) option" where
  "lru_get k c =
     (case map_of c k of
        None \<Rightarrow> None
      | Some v \<Rightarrow> Some (v, (k, v) # filter (\<lambda>e. fst e \<noteq> k) c))"

definition lru_put :: "'k \<Rightarrow> 'v \<Rightarrow> ('k \<times> 'v) list \<Rightarrow> ('k \<times> 'v) list" where
  "lru_put k v c = (if map_of c k \<noteq> None then c else take maxsize ((k, v) # c))"

section \<open>Wildcard matcher\<close>



text \<open>
  \<open>AdvancedPatternMatcher.wildcard_match\<close>: the cached method. A hit returns the stored
  value without running the body; a miss runs the body, which counts the call in
  \<open>stats["calls"]\<close>, and stores the value it returns. An exception is not stored.
\<close>

function wildcard_match ::
  "string \<Rightarrow> string \<Rightarrow> nat \<Rightarrow> nat \<Rightarrow> matcher \<Rightarrow> (error + bool) \<times> matcher" where
  "wildcard_match text pattern i j s =
     (case lru_get (text, pattern, i, j) (wc_cache s) of
        Some (v, c) \<Rightarrow> (Inr v, s\<lparr>wc_cache := c\<rparr>)
      | None \<Rightarrow>
          (let s1 = s\<lparr>calls := calls s + 1\<rparr>;
               (r, s') =
                 (if i = length text \<and> j = length pattern then (Inr True, s1)
                  else if i = length text then
                    (Inr (list_all (\<lambda>c. c = CHR ''*'') (drop j pattern)), s1)
                  else if j = length pattern then (Inr False, s1)
                  else if length pattern < j then (Inl IndexError, s1)
                  else if pattern ! j = CHR ''*'' then
                    (case wildcard_match text pattern i (j + 1) s1 of
                       (Inl e, s2) \<Rightarrow> (Inl e, s2)
                     | (Inr True, s2) \<Rightarrow> (Inr True, s2)
                     | (Inr False, s2) \<Rightarrow>
                         if i < length text then wildcard_match text pattern (i + 1) j s2
                         else (Inr False, s2))
                  else if pattern ! j = CHR ''?'' then
                    wildcard_match text pattern (i + 1) (j + 1) s1
                  else if length text \<le> i then (Inl IndexError, s1)
                  else if pattern ! j = text ! i then
                    wildcard_match text pattern (i + 1) (j + 1) s1
                  else (Inr False, s1))
           in (case r of
                 Inl e \<Rightarrow> (Inl e, s')
               | Inr v \<Rightarrow>
                   (Inr v, s'\<lparr>wc_cache := lru_put (text, pattern, i, j) v (wc_cache s')\<rparr>))))"
  by pat_completeness auto
termination
  by (relation "measure (\<lambda>(text, pattern, i, j, s). (length pattern - j) + (length text - i))")
    auto

declare wildcard_match.simps [simp del]

text \<open>
  \<open>wildcard_match\<close> of "Pattern matcher i.py": the inner function \<open>dfs\<close> with its
  dictionary \<open>memo\<close>, created empty by every call of the outer function. The base cases
  return without storing.
\<close>

type_synonym memo = "nat \<times> nat \<rightharpoonup> bool"

function dfs :: "string \<Rightarrow> string \<Rightarrow> nat \<Rightarrow> nat \<Rightarrow> memo \<Rightarrow> error + bool \<times> memo" where
  "dfs text pattern i j memo =
     (case memo (i, j) of
        Some v \<Rightarrow> Inr (v, memo)
      | None \<Rightarrow>
          if i = length text \<and> j = length pattern then Inr (True, memo)
          else if i = length text then
            Inr (list_all (\<lambda>c. c = CHR ''*'') (drop j pattern), memo)
          else if j = length pattern then Inr (False, memo)
          else if length pattern < j then Inl IndexError
          else
            (case
               (if pattern ! j = CHR ''*'' then
                  (case dfs text pattern i (j + 1) memo of
                     Inl e \<Rightarrow> Inl e
                   | Inr (True, m1) \<Rightarrow> Inr (True, m1)
                   | Inr (False, m1) \<Rightarrow>
                       if i < length text then dfs text pattern (i + 1) j m1
                       else Inr (False, m1))
                else if pattern ! j = CHR ''?'' then dfs text pattern (i + 1) (j + 1) memo
                else if length text \<le> i then Inl IndexError
                else if pattern ! j = text ! i then dfs text pattern (i + 1) (j + 1) memo
                else Inr (False, memo))
             of
               Inl e \<Rightarrow> Inl e
             | Inr (match, m') \<Rightarrow> Inr (match, m'((i, j) \<mapsto> match))))"
  by pat_completeness auto
termination
  by (relation "measure (\<lambda>(text, pattern, i, j, memo). (length pattern - j) + (length text - i))")
    auto

declare dfs.simps [simp del]

definition wildcard_match_i :: "string \<Rightarrow> string \<Rightarrow> error + bool" where
  "wildcard_match_i text pattern = map_sum id fst (dfs text pattern 0 0 Map.empty)"

section \<open>Bounded-mismatch motif scanner\<close>



text \<open>\<open>AdvancedPatternMatcher.motif_distance\<close>: the cached method.\<close>

function motif_distance ::
  "string \<Rightarrow> string \<Rightarrow> nat \<Rightarrow> nat \<Rightarrow> matcher \<Rightarrow> (error + cost) \<times> matcher" where
  "motif_distance dna motif i j s =
     (case lru_get (dna, motif, i, j) (md_cache s) of
        Some (v, c) \<Rightarrow> (Inr v, s\<lparr>md_cache := c\<rparr>)
      | None \<Rightarrow>
          (let (r, s') =
                 (if j = length motif then (Inr 0, s)
                  else if int i + int (length motif) - int j > int (length dna) then (Inr \<infinity>, s)
                  else if length dna \<le> i \<or> length motif \<le> j then (Inl IndexError, s)
                  else
                    (case motif_distance dna motif (i + 1) (j + 1) s of
                       (Inl e, s1) \<Rightarrow> (Inl e, s1)
                     | (Inr a, s1) \<Rightarrow>
                         (case motif_distance dna motif (i + 1) j s1 of
                            (Inl e, s2) \<Rightarrow> (Inl e, s2)
                          | (Inr b, s2) \<Rightarrow>
                              (Inr (min ((if dna ! i = motif ! j then 0 else 1) + a) b), s2))))
           in (case r of
                 Inl e \<Rightarrow> (Inl e, s')
               | Inr v \<Rightarrow>
                   (Inr v, s'\<lparr>md_cache := lru_put (dna, motif, i, j) v (md_cache s')\<rparr>))))"
  by pat_completeness auto
termination
  by (relation "measure (\<lambda>(dna, motif, i, j, s). length dna - i)") auto

declare motif_distance.simps [simp del]




text \<open>The comparison \<open>mismatches <= max_mismatches\<close> of a cost with a Python int.\<close>

definition cost_le :: "cost \<Rightarrow> int \<Rightarrow> bool" where
  "cost_le c k = (case c of enat x \<Rightarrow> int x \<le> k | \<infinity> \<Rightarrow> False)"

text \<open>\<open>range(a)\<close> for a Python int \<open>a\<close>: empty when \<open>a\<close> is not positive.\<close>

definition range_py :: "int \<Rightarrow> nat list" where
  "range_py a = [0 ..< nat a]"



section \<open>Linear exact matcher\<close>

text \<open>
  \<open>AdvancedPatternMatcher.kmp_search\<close>. Its two \<open>while\<close> loops are recursive functions
  whose value is \<open>None\<close> when the loop does not end. The first loop fills the prefix table
  \<open>lps\<close>; its state is the index \<open>i\<close>, the current overlap \<open>len\<close> (the variable
  \<open>length\<close> of the source) and the table.
\<close>

partial_function (option) compute_lps ::
  "string \<Rightarrow> nat \<Rightarrow> nat \<Rightarrow> nat list \<Rightarrow> (error + nat list) option" where
  "compute_lps pattern i len lps =
     (if i < length pattern then
        (if length pattern \<le> len then Some (Inl IndexError)
         else if pattern ! i = pattern ! len then
           (if length lps \<le> i then Some (Inl IndexError)
            else compute_lps pattern (i + 1) (len + 1) (lps[i := len + 1]))
         else if len \<noteq> 0 then
           (if length lps \<le> len - 1 then Some (Inl IndexError)
            else compute_lps pattern i (lps ! (len - 1)) lps)
         else
           (if length lps \<le> i then Some (Inl IndexError)
            else compute_lps pattern (i + 1) len (lps[i := 0])))
      else Some (Inr lps))"

declare compute_lps.simps [code]

text \<open>
  The second loop scans the text; its state is the text index \<open>i\<close>, the pattern index
  \<open>j\<close> and the offsets found so far. An offset is the Python int \<open>i - j\<close>.
\<close>

partial_function (option) kmp_scan ::
  "string \<Rightarrow> string \<Rightarrow> nat list \<Rightarrow> nat \<Rightarrow> nat \<Rightarrow> int list \<Rightarrow> (error + int list) option" where
  "kmp_scan text pattern lps i j matches =
     (if i < length text then
        (if length pattern \<le> j then Some (Inl IndexError)
         else
           (let i1 = (if pattern ! j = text ! i then i + 1 else i);
                j1 = (if pattern ! j = text ! i then j + 1 else j)
            in if j1 = length pattern then
                 (if length lps \<le> j1 - 1 then Some (Inl IndexError)
                  else kmp_scan text pattern lps i1 (lps ! (j1 - 1))
                         (matches @ [int i1 - int j1]))
               else if i1 < length text \<and> pattern ! j1 \<noteq> text ! i1 then
                 (if j1 \<noteq> 0 then
                    (if length lps \<le> j1 - 1 then Some (Inl IndexError)
                     else kmp_scan text pattern lps i1 (lps ! (j1 - 1)) matches)
                  else kmp_scan text pattern lps (i1 + 1) j1 matches)
               else kmp_scan text pattern lps i1 j1 matches))
      else Some (Inr matches))"

declare kmp_scan.simps [code]

definition kmp_search :: "string \<Rightarrow> string \<Rightarrow> (error + int list) option" where
  "kmp_search text pattern =
     (if pattern = [] \<or> text = [] then Some (Inr [])
      else
        (case compute_lps pattern 1 0 (replicate (length pattern) 0) of
           None \<Rightarrow> None
         | Some (Inl e) \<Rightarrow> Some (Inl e)
         | Some (Inr lps) \<Rightarrow> kmp_scan text pattern lps 0 0 []))"

section \<open>Fuzzy fixed-window scanner\<close>

text \<open>The decimal digits of a number, as the f-string \<open>f"{distance} mismatches"\<close> prints it.\<close>

fun str_nat :: "nat \<Rightarrow> string" where
  "str_nat n =
     (if n < 10 then [char_of (48 + n)]
      else str_nat (n div 10) @ [char_of (48 + n mod 10)])"

declare str_nat.simps [simp del]

definition hamming :: "string \<Rightarrow> string \<Rightarrow> nat" where
  "hamming snippet pattern = length (filter (\<lambda>(c1, c2). c1 \<noteq> c2) (zip snippet pattern))"

text \<open>\<open>AdvancedPatternMatcher.fuzzy_regex_search\<close>: one window per start offset of the range.\<close>

fun fuzzy_windows :: "string \<Rightarrow> string \<Rightarrow> int \<Rightarrow> nat list \<Rightarrow> MatchResult list" where
  "fuzzy_windows text pattern max_distance [] = []"
| "fuzzy_windows text pattern max_distance (i # rest) =
     (let snippet = take (length pattern) (drop i text);
          distance = hamming snippet pattern
      in (if int distance \<le> max_distance then
            [\<lparr>start_pos = i, end_pos = i + length pattern, score = distance,
              pattern_type = ''fuzzy_regex'',
              explanation = str_nat distance @ '' mismatches''\<rparr>]
          else [])
         @ fuzzy_windows text pattern max_distance rest)"

definition fuzzy_regex_search :: "string \<Rightarrow> string \<Rightarrow> int \<Rightarrow> MatchResult list" where
  "fuzzy_regex_search text pattern max_distance =
     fuzzy_windows text pattern max_distance
       (range_py (int (length text) - int (length pattern) + 1))"

section \<open>Parallel batch dispatcher\<close>

text \<open>
  \<open>AdvancedPatternMatcher.parallel_search\<close> creates a \<open>multiprocessing.Pool\<close> and calls its
  \<open>starmap\<close>. The pool is the standard library's: its constructor raises \<open>ValueError\<close> for
  a process count below one; \<open>starmap\<close> cuts the list of jobs into chunks, the chunk
  size being the job count divided by four times the process count and rounded up, has
  each chunk computed by one worker, and writes the results of chunk \<open>k\<close> into the slots of
  chunk \<open>k\<close>. An exception or a job that does not end is the outcome of the whole call.
\<close>

definition chunksize :: "nat \<Rightarrow> nat \<Rightarrow> nat" where
  "chunksize len n_procs =
     (if len = 0 then 0
      else len div (n_procs * 4) + (if len mod (n_procs * 4) \<noteq> 0 then 1 else 0))"

function chunks_of :: "nat \<Rightarrow> 'a list \<Rightarrow> 'a list list" where
  "chunks_of k xs =
     (if k = 0 \<or> xs = [] then [] else take k xs # chunks_of k (drop k xs))"
  by pat_completeness auto
termination
  by (relation "measure (\<lambda>(k, xs). length xs)") auto

declare chunks_of.simps [simp del]

fun gather :: "(error + 'a) option list \<Rightarrow> (error + 'a list) option" where
  "gather [] = Some (Inr [])"
| "gather (r # rs) =
     (case r of
        None \<Rightarrow> None
      | Some (Inl e) \<Rightarrow> Some (Inl e)
      | Some (Inr v) \<Rightarrow>
          (case gather rs of
             None \<Rightarrow> None
           | Some (Inl e) \<Rightarrow> Some (Inl e)
           | Some (Inr vs) \<Rightarrow> Some (Inr (v # vs))))"

definition starmap ::
  "nat \<Rightarrow> ('a \<Rightarrow> (error + 'b) option) \<Rightarrow> 'a list \<Rightarrow> (error + 'b list) option" where
  "starmap n_procs f jobs =
     gather (concat (map (map f) (chunks_of (chunksize (length jobs) n_procs) jobs)))"

definition parallel_search :: "string list \<Rightarrow> string \<Rightarrow> int \<Rightarrow> (error + int list list) option" where
  "parallel_search texts pattern n_workers =
     (if n_workers < 1 then Some (Inl ValueError)
      else starmap (nat n_workers) (\<lambda>(t, p). kmp_search t p) (map (\<lambda>t. (t, pattern)) texts))"

section \<open>Orchestrator\<close>

text \<open>
  \<open>AdvancedPatternMatcher.analyze_all\<close> fills a dictionary with four entries. Its loops
  call the cached methods, so the matcher state passes through them; an exception ends
  the call and leaves the state as it is at that moment.
\<close>

record report =
  wildcard :: "(nat \<times> string) list"
  motifs :: "(nat \<times> nat) list"
  kmp :: "string \<rightharpoonup> int list"
  fuzzy_regex :: "MatchResult list"

fun wildcard_starts ::
  "string \<Rightarrow> string \<Rightarrow> nat list \<Rightarrow> (nat \<times> string) list \<Rightarrow> matcher \<Rightarrow>
     (error + (nat \<times> string) list) \<times> matcher" where
  "wildcard_starts text pattern [] wc_results s = (Inr wc_results, s)"
| "wildcard_starts text pattern (start # rest) wc_results s =
     (case wildcard_match text pattern start 0 s of
        (Inl e, s') \<Rightarrow> (Inl e, s')
      | (Inr b, s') \<Rightarrow>
          wildcard_starts text pattern rest
            (if b then wc_results @ [(start, take 10 (drop start text) @ ''...'')]
             else wc_results) s')"

fun wildcard_patterns ::
  "string \<Rightarrow> string list \<Rightarrow> (nat \<times> string) list \<Rightarrow> matcher \<Rightarrow>
     (error + (nat \<times> string) list) \<times> matcher" where
  "wildcard_patterns text [] wc_results s = (Inr wc_results, s)"
| "wildcard_patterns text (pattern # rest) wc_results s =
     (case wildcard_starts text pattern (range_py (int (length text))) wc_results s of
        (Inl e, s') \<Rightarrow> (Inl e, s')
      | (Inr wc_results', s') \<Rightarrow> wildcard_patterns text rest wc_results' s')"

fun motif_starts ::
  "string \<Rightarrow> string \<Rightarrow> int \<Rightarrow> nat list \<Rightarrow> (nat \<times> nat) list \<Rightarrow> matcher \<Rightarrow>
     (error + (nat \<times> nat) list) \<times> matcher" where
  "motif_starts text pattern max_motif_dist [] motif_results s = (Inr motif_results, s)"
| "motif_starts text pattern max_motif_dist (start # rest) motif_results s =
     (case motif_distance text pattern start 0 s of
        (Inl e, s') \<Rightarrow> (Inl e, s')
      | (Inr dist', s') \<Rightarrow>
          motif_starts text pattern max_motif_dist rest
            (if cost_le dist' max_motif_dist then motif_results @ [(start, the_enat dist')]
             else motif_results) s')"

fun motif_patterns ::
  "string \<Rightarrow> string list \<Rightarrow> int \<Rightarrow> (nat \<times> nat) list \<Rightarrow> matcher \<Rightarrow>
     (error + (nat \<times> nat) list) \<times> matcher" where
  "motif_patterns text [] max_motif_dist motif_results s = (Inr motif_results, s)"
| "motif_patterns text (pattern # rest) max_motif_dist motif_results s =
     (case motif_starts text pattern max_motif_dist
             (range_py (int (length text) - int (length pattern) + 1)) motif_results s of
        (Inl e, s') \<Rightarrow> (Inl e, s')
      | (Inr motif_results', s') \<Rightarrow>
          motif_patterns text rest max_motif_dist motif_results' s')"

fun kmp_dict ::
  "string \<Rightarrow> string list \<Rightarrow> (string \<rightharpoonup> int list) \<Rightarrow> (error + (string \<rightharpoonup> int list)) option" where
  "kmp_dict text [] d = Some (Inr d)"
| "kmp_dict text (p # rest) d =
     (case kmp_search text p of
        None \<Rightarrow> None
      | Some (Inl e) \<Rightarrow> Some (Inl e)
      | Some (Inr offsets) \<Rightarrow> kmp_dict text rest (d(p \<mapsto> offsets)))"

definition analyze_all ::
  "string \<Rightarrow> string list \<Rightarrow> int \<Rightarrow> matcher \<Rightarrow> ((error + report) \<times> matcher) option" where
  "analyze_all text patterns max_motif_dist s =
     (case wildcard_patterns text patterns [] s of
        (Inl e, s1) \<Rightarrow> Some (Inl e, s1)
      | (Inr wc_results, s1) \<Rightarrow>
          (case motif_patterns text patterns max_motif_dist [] s1 of
             (Inl e, s2) \<Rightarrow> Some (Inl e, s2)
           | (Inr motif_results, s2) \<Rightarrow>
               (case kmp_dict text patterns Map.empty of
                  None \<Rightarrow> None
                | Some (Inl e) \<Rightarrow> Some (Inl e, s2)
                | Some (Inr d) \<Rightarrow>
                    (case patterns of
                       [] \<Rightarrow> Some (Inl IndexError, s2)
                     | p0 # _ \<Rightarrow>
                         Some (Inr \<lparr>wildcard = wc_results, motifs = motif_results, kmp = d,
                                    fuzzy_regex = fuzzy_regex_search text p0 2\<rparr>, s2)))))"

section \<open>Invariants\<close>









text \<open>
  \<open>border p q k\<close>: the first \<open>k\<close> symbols of \<open>p\<close> are also the last \<open>k\<close> of its prefix of
  length \<open>q\<close>, and \<open>k < q\<close>. The prefix table is right up to \<open>i\<close> when entry \<open>q - 1\<close> is
  the longest such \<open>k\<close> for every \<open>q\<close> from 1 to \<open>i\<close>. \<open>lps_inv\<close> is the invariant of the
  first loop of \<open>kmp_search\<close>.
\<close>

definition border :: "'a list \<Rightarrow> nat \<Rightarrow> nat \<Rightarrow> bool" where
  "border p q k = (k < q \<and> (\<forall>x<k. p ! x = p ! (q - k + x)))"

definition max_border :: "'a list \<Rightarrow> nat \<Rightarrow> nat \<Rightarrow> bool" where
  "max_border p q k = (border p q k \<and> (\<forall>k'. border p q k' \<longrightarrow> k' \<le> k))"

definition lps_ok :: "'a list \<Rightarrow> nat list \<Rightarrow> nat \<Rightarrow> bool" where
  "lps_ok p lps i =
     (length lps = length p \<and> (\<forall>q. 1 \<le> q \<and> q \<le> i \<longrightarrow> max_border p q (lps ! (q - 1))))"

definition lps_inv :: "'a list \<Rightarrow> nat \<Rightarrow> nat \<Rightarrow> nat list \<Rightarrow> bool" where
  "lps_inv p i len lps =
     (1 \<le> i \<and> i \<le> length p \<and> lps_ok p lps i \<and> border p i len \<and>
      (\<forall>k. border p i k \<and> len < k \<longrightarrow> p ! k \<noteq> p ! i))"

text \<open>
  \<open>occurs_at t p s\<close>: the pattern \<open>p\<close> lies in the text \<open>t\<close> at offset \<open>s\<close>. \<open>scan_inv\<close> is
  the invariant of the second loop: the last \<open>j\<close> symbols read match the first \<open>j\<close> of the
  pattern, and the offsets found so far are the occurrences before \<open>i - j\<close>, in order.
\<close>

definition occurs_at :: "'a list \<Rightarrow> 'a list \<Rightarrow> nat \<Rightarrow> bool" where
  "occurs_at t p s = (s + length p \<le> length t \<and> (\<forall>k<length p. t ! (s + k) = p ! k))"

definition scan_inv :: "'a list \<Rightarrow> 'a list \<Rightarrow> nat \<Rightarrow> nat \<Rightarrow> int list \<Rightarrow> bool" where
  "scan_inv t p i j ms =
     (j \<le> i \<and> i \<le> length t \<and> j < length p \<and> (\<forall>x<j. t ! (i - j + x) = p ! x) \<and>
      ms = map int (filter (occurs_at t p) [0 ..< i - j]))"





section \<open>The caches do not change the values\<close>



















section \<open>Values of the cached functions\<close>




















section \<open>The prefix table\<close>

lemma border_zero: "0 < q \<Longrightarrow> border p q 0"
  by (simp add: border_def)

lemma border_extend:
  assumes "border p i len" and "p ! i = p ! len"
  shows "border p (Suc i) (Suc len)"
  unfolding border_def
proof (intro conjI allI impI)
  show "Suc len < Suc i" using assms(1) by (simp add: border_def)
next
  fix x assume "x < Suc len"
  then consider "x < len" | "x = len" by linarith
  then show "p ! x = p ! (Suc i - Suc len + x)"
  proof cases
    case 1
    with assms(1) show ?thesis by (simp add: border_def)
  next
    case 2
    with assms show ?thesis by (simp add: border_def)
  qed
qed

lemma border_shrink:
  assumes "border p (Suc i) (Suc k)"
  shows "border p i k \<and> p ! k = p ! i"
proof -
  from assms have lt: "k < i" and eq: "\<And>x. x < Suc k \<Longrightarrow> p ! x = p ! (i - k + x)"
    by (simp_all add: border_def)
  from eq [of k] lt have "p ! k = p ! i" by simp
  moreover have "border p i k"
    using lt eq by (simp add: border_def)
  ultimately show ?thesis by simp
qed

lemma border_nested:
  assumes "border p i len" and "border p len k"
  shows "border p i k"
  unfolding border_def
proof (intro conjI allI impI)
  show "k < i" using assms by (simp add: border_def)
next
  fix x assume x: "x < k"
  from assms have kl: "k < len" and li: "len < i" by (simp_all add: border_def)
  have "p ! x = p ! (len - k + x)" using assms(2) x by (simp add: border_def)
  also have "\<dots> = p ! (i - len + (len - k + x))"
    using assms(1) x kl by (simp add: border_def)
  also have "i - len + (len - k + x) = i - k + x" using kl li by simp
  finally show "p ! x = p ! (i - k + x)" .
qed

lemma border_between:
  assumes "border p i len" and "border p i k" and "k < len"
  shows "border p len k"
  unfolding border_def
proof (intro conjI allI impI)
  show "k < len" by fact
next
  fix x assume x: "x < k"
  from assms have li: "len < i" by (simp add: border_def)
  have "p ! (len - k + x) = p ! (i - len + (len - k + x))"
    using assms(1,3) x by (simp add: border_def)
  also have "i - len + (len - k + x) = i - k + x" using assms(3) li by simp
  also have "p ! (i - k + x) = p ! x" using assms(2) x by (simp add: border_def)
  finally show "p ! x = p ! (len - k + x)" by simp
qed

lemma lps_inv_init:
  assumes "p \<noteq> []"
  shows "lps_inv p 1 0 (replicate (length p) 0)"
proof -
  have pos: "0 < length p" using assms by simp
  have one: "Suc 0 \<le> length p" using assms by (cases p) simp_all
  have mb: "max_border p 1 0" by (auto simp: max_border_def border_def)
  have "lps_ok p (replicate (length p) 0) 1"
    unfolding lps_ok_def
  proof (intro conjI allI impI)
    fix q :: nat assume "1 \<le> q \<and> q \<le> 1"
    then have "q = 1" by simp
    with mb pos show "max_border p q (replicate (length p) 0 ! (q - 1))" by simp
  qed simp
  moreover have "border p 1 0" by (simp add: border_def)
  moreover have "\<forall>k. border p 1 k \<and> 0 < k \<longrightarrow> p ! k \<noteq> p ! 1"
    by (auto simp: border_def)
  ultimately show ?thesis
    using one by (simp add: lps_inv_def)
qed

lemma lps_inv_match:
  assumes inv: "lps_inv p i len lps" and lt: "i < length p" and eq: "p ! i = p ! len"
  shows "lps_inv p (Suc i) (Suc len) (lps[i := Suc len])"
proof -
  from inv have ok: "lps_ok p lps i" and b: "border p i len"
    and nb: "\<And>k. border p i k \<Longrightarrow> len < k \<Longrightarrow> p ! k \<noteq> p ! i"
    by (auto simp: lps_inv_def)
  have b': "border p (Suc i) (Suc len)" using b eq by (rule border_extend)
  have mx: "k' \<le> Suc len" if "border p (Suc i) k'" for k'
  proof (cases k')
    case 0
    then show ?thesis by simp
  next
    case (Suc k)
    with that have "border p i k \<and> p ! k = p ! i" by (simp add: border_shrink)
    with nb [of k] have "k \<le> len" by (meson not_le_imp_less)
    with Suc show ?thesis by simp
  qed
  have mb: "max_border p (Suc i) (Suc len)" using b' mx by (simp add: max_border_def)
  have len: "length lps = length p" using ok by (simp add: lps_ok_def)
  have ok': "lps_ok p (lps[i := Suc len]) (Suc i)"
    unfolding lps_ok_def
  proof (intro conjI allI impI)
    show "length (lps[i := Suc len]) = length p" using len by simp
  next
    fix q assume q: "1 \<le> q \<and> q \<le> Suc i"
    show "max_border p q (lps[i := Suc len] ! (q - 1))"
    proof (cases "q = Suc i")
      case True
      with mb len lt show ?thesis by simp
    next
      case False
      with q have "q \<le> i" "q - 1 \<noteq> i" by auto
      with q ok show ?thesis by (simp add: lps_ok_def)
    qed
  qed
  have "\<forall>k. border p (Suc i) k \<and> Suc len < k \<longrightarrow> p ! k \<noteq> p ! Suc i"
    using mx by fastforce
  with ok' b' lt show ?thesis by (simp add: lps_inv_def)
qed

lemma lps_inv_fallback:
  assumes inv: "lps_inv p i len lps" and lt: "i < length p" and ne: "p ! i \<noteq> p ! len"
    and pos: "len \<noteq> 0"
  shows "lps_inv p i (lps ! (len - 1)) lps \<and> lps ! (len - 1) < len"
proof -
  from inv have ok: "lps_ok p lps i" and b: "border p i len" and i1: "1 \<le> i"
    and nb: "\<And>k. border p i k \<Longrightarrow> len < k \<Longrightarrow> p ! k \<noteq> p ! i"
    by (auto simp: lps_inv_def)
  from b have li: "len < i" by (simp add: border_def)
  with pos ok have mb: "max_border p len (lps ! (len - 1))" by (simp add: lps_ok_def)
  then have bl: "border p len (lps ! (len - 1))" by (simp add: max_border_def)
  then have less: "lps ! (len - 1) < len" by (simp add: border_def)
  have b': "border p i (lps ! (len - 1))" using b bl by (rule border_nested)
  have "p ! k \<noteq> p ! i" if k: "border p i k" "lps ! (len - 1) < k" for k
  proof -
    consider "len < k" | "k = len" | "k < len" by linarith
    then show ?thesis
    proof cases
      case 1
      with k nb show ?thesis by simp
    next
      case 2
      with ne show ?thesis by simp
    next
      case 3
      with b k(1) have "border p len k" by (rule border_between)
      with mb have "k \<le> lps ! (len - 1)" by (simp add: max_border_def)
      with k(2) show ?thesis by simp
    qed
  qed
  with ok b' i1 lt less show ?thesis by (simp add: lps_inv_def)
qed

lemma lps_inv_reset:
  assumes inv: "lps_inv p i 0 lps" and lt: "i < length p" and ne: "p ! i \<noteq> p ! 0"
  shows "lps_inv p (Suc i) 0 (lps[i := 0])"
proof -
  from inv have ok: "lps_ok p lps i"
    and nb: "\<And>k. border p i k \<Longrightarrow> 0 < k \<Longrightarrow> p ! k \<noteq> p ! i"
    by (auto simp: lps_inv_def)
  have mx: "k' = 0" if "border p (Suc i) k'" for k'
  proof (cases k')
    case 0
    then show ?thesis by simp
  next
    case (Suc k)
    with that have bk: "border p i k" and e: "p ! k = p ! i" by (simp_all add: border_shrink)
    show ?thesis
    proof (cases "k = 0")
      case True
      with e ne show ?thesis by simp
    next
      case False
      with nb [OF bk] e show ?thesis by simp
    qed
  qed
  have b': "border p (Suc i) 0" by (simp add: border_def)
  have mb: "max_border p (Suc i) 0" using b' mx by (auto simp: max_border_def)
  have len: "length lps = length p" using ok by (simp add: lps_ok_def)
  have ok': "lps_ok p (lps[i := 0]) (Suc i)"
    unfolding lps_ok_def
  proof (intro conjI allI impI)
    show "length (lps[i := 0]) = length p" using len by simp
  next
    fix q assume q: "1 \<le> q \<and> q \<le> Suc i"
    show "max_border p q (lps[i := 0] ! (q - 1))"
    proof (cases "q = Suc i")
      case True
      with mb len lt show ?thesis by simp
    next
      case False
      with q have "q \<le> i" "q - 1 \<noteq> i" by auto
      with q ok show ?thesis by (simp add: lps_ok_def)
    qed
  qed
  have "\<forall>k. border p (Suc i) k \<and> 0 < k \<longrightarrow> p ! k \<noteq> p ! Suc i"
    using mx by fastforce
  with ok' b' lt show ?thesis by (simp add: lps_inv_def)
qed

lemma compute_lps_correct:
  assumes "lps_inv p i len lps"
  shows "\<exists>lps'. compute_lps p i len lps = Some (Inr lps') \<and> lps_ok p lps' (length p)"
  using assms
proof (induction "2 * (length p - i) + len" arbitrary: i len lps rule: less_induct)
  case less
  note inv = \<open>lps_inv p i len lps\<close>
  from inv have ok: "lps_ok p lps i" and b: "border p i len" and ile: "i \<le> length p"
    by (auto simp: lps_inv_def)
  from b have li: "len < i" by (simp add: border_def)
  have len: "length lps = length p" using ok by (simp add: lps_ok_def)
  show ?case
  proof (cases "i < length p")
    case False
    with ile have "i = length p" by simp
    with ok show ?thesis by (subst compute_lps.simps) simp
  next
    case lt: True
    consider (match) "p ! i = p ! len" | (fallback) "p ! i \<noteq> p ! len" "len \<noteq> 0"
      | (reset) "p ! i \<noteq> p ! len" "len = 0"
      by blast
    then show ?thesis
    proof cases
      case match
      have step: "compute_lps p i len lps = compute_lps p (i + 1) (len + 1) (lps[i := len + 1])"
        using lt li len match by (subst compute_lps.simps) simp
      have "lps_inv p (Suc i) (Suc len) (lps[i := Suc len])"
        using inv lt match by (rule lps_inv_match)
      moreover have "2 * (length p - Suc i) + Suc len < 2 * (length p - i) + len"
        using lt by simp
      ultimately show ?thesis
        using less.hyps [of "Suc i" "Suc len" "lps[i := Suc len]"] step by simp
    next
      case fallback
      have "\<not> length lps \<le> len - 1"
        using lt li len by simp
      then have step: "compute_lps p i len lps = compute_lps p i (lps ! (len - 1)) lps"
        using lt li len fallback by (subst compute_lps.simps) simp
      have "lps_inv p i (lps ! (len - 1)) lps \<and> lps ! (len - 1) < len"
        using inv lt fallback by (rule lps_inv_fallback)
      then show ?thesis
        using less.hyps [of i "lps ! (len - 1)" lps] step by simp
    next
      case reset
      have "\<not> length p \<le> len"
        using lt li by simp
      then have step: "compute_lps p i len lps = compute_lps p (i + 1) len (lps[i := 0])"
        using lt li len reset by (subst compute_lps.simps) simp
      have "lps_inv p (Suc i) 0 (lps[i := 0])"
        using inv lt reset by (simp add: lps_inv_reset)
      moreover have "2 * (length p - Suc i) + 0 < 2 * (length p - i) + len"
        using lt by simp
      ultimately show ?thesis
        using less.hyps [of "Suc i" 0 "lps[i := 0]"] step reset by simp
    qed
  qed
qed

section \<open>The scan\<close>

lemma window_fallback:
  assumes win: "\<forall>x<q. t ! (a + x) = p ! x" and mb: "max_border p q k" and q: "q \<le> length p"
  shows "\<forall>x<k. t ! (a + (q - k) + x) = p ! x"
    and "\<And>s. a < s \<Longrightarrow> s < a + (q - k) \<Longrightarrow> \<not> occurs_at t p s"
proof -
  from mb have kq: "k < q" and bord: "\<And>x. x < k \<Longrightarrow> p ! x = p ! (q - k + x)"
    and mx: "\<And>k'. border p q k' \<Longrightarrow> k' \<le> k"
    by (simp_all add: max_border_def border_def)
  show "\<forall>x<k. t ! (a + (q - k) + x) = p ! x"
  proof (intro allI impI)
    fix x assume x: "x < k"
    then have "q - k + x < q" using kq by simp
    with win have "t ! (a + (q - k + x)) = p ! (q - k + x)" by blast
    with bord [OF x] show "t ! (a + (q - k) + x) = p ! x" by (simp add: add.assoc)
  qed
  show "\<not> occurs_at t p s" if s: "a < s" "s < a + (q - k)" for s
  proof
    assume occ: "occurs_at t p s"
    define k' where "k' = a + q - s"
    have k'q: "k' < q" and kk': "k < k'" and qk': "q - k' = s - a"
      using s kq by (simp_all add: k'_def)
    have "border p q k'"
      unfolding border_def
    proof (intro conjI allI impI)
      show "k' < q" by fact
    next
      fix x assume x: "x < k'"
      then have "x < length p" using k'q q by simp
      with occ have "t ! (s + x) = p ! x" by (simp add: occurs_at_def)
      moreover have "s - a + x < q" using x s by (simp add: k'_def)
      with win have "t ! (a + (s - a + x)) = p ! (s - a + x)" by blast
      moreover have "a + (s - a + x) = s + x" using s by simp
      ultimately show "p ! x = p ! (q - k' + x)" using qk' by simp
    qed
    then have "k' \<le> k" by (rule mx)
    with kk' show False by simp
  qed
qed

lemma filter_upt_skip:
  assumes "a \<le> b" and "\<And>s. a \<le> s \<Longrightarrow> s < b \<Longrightarrow> \<not> P s"
  shows "filter P [0 ..< b] = filter P [0 ..< a]"
proof -
  have "[0 ..< a + (b - a)] = [0 ..< a] @ [a ..< a + (b - a)]"
    by (rule upt_add_eq_append) simp
  then have "[0 ..< b] = [0 ..< a] @ [a ..< b]"
    using assms(1) by simp
  moreover have "filter P [a ..< b] = []"
    using assms(2) by (auto simp: filter_empty_conv)
  ultimately show ?thesis by simp
qed

lemma filter_upt_hit:
  assumes "a < b" and "P a" and "\<And>s. a < s \<Longrightarrow> s < b \<Longrightarrow> \<not> P s"
  shows "filter P [0 ..< b] = filter P [0 ..< a] @ [a]"
proof -
  have "filter P [0 ..< b] = filter P [0 ..< Suc a]"
    using assms(1,3) by (intro filter_upt_skip) auto
  then show ?thesis using assms(2) by simp
qed

lemma lps_entry:
  assumes "lps_ok p lps (length p)" and "1 \<le> q" and "q \<le> length p"
  shows "max_border p q (lps ! (q - 1))" and "lps ! (q - 1) < q" and "q - 1 < length lps"
proof -
  show mb: "max_border p q (lps ! (q - 1))" using assms by (simp add: lps_ok_def)
  then show "lps ! (q - 1) < q" by (simp add: max_border_def border_def)
  show "q - 1 < length lps" using assms by (simp add: lps_ok_def)
qed

lemma kmp_scan_correct:
  assumes lps: "lps_ok p lps (length p)" and inv: "scan_inv t p i j ms"
  shows "kmp_scan t p lps i j ms =
           Some (Inr (map int (filter (occurs_at t p) [0 ..< length t])))"
  using inv
proof (induction "2 * (length t - i) + j" arbitrary: i j ms rule: less_induct)
  case less
  note inv = \<open>scan_inv t p i j ms\<close>
  define a where "a = i - j"
  from inv have ji: "j \<le> i" and "in": "i \<le> length t" and jm: "j < length p"
    and win: "\<forall>x<j. t ! (a + x) = p ! x"
    and ms: "ms = map int (filter (occurs_at t p) [0 ..< a])"
    unfolding scan_inv_def a_def by blast+
  have i: "i = a + j" using ji by (simp add: a_def)
  show ?case
  proof (cases "i < length t")
    case False
    with "in" have n: "i = length t" by simp
    have "\<not> occurs_at t p s" if "a \<le> s" for s
      using that jm i n by (simp add: occurs_at_def)
    then have "filter (occurs_at t p) [0 ..< length t] = filter (occurs_at t p) [0 ..< a]"
      using i n by (intro filter_upt_skip) simp_all
    with ms n show ?thesis by (subst kmp_scan.simps) simp
  next
    case lt: True
    show ?thesis
    proof (cases "p ! j = t ! i")
      case c: True
      have win1: "\<forall>x<Suc j. t ! (a + x) = p ! x"
        using win c i by (simp add: less_Suc_eq)
      have q1: "1 \<le> Suc j" "Suc j \<le> length p" using jm by simp_all
      note e = lps_entry [OF lps q1]
      define k where "k = lps ! j"
      from e have mb: "max_border p (Suc j) k" and kj: "k < Suc j" and jl: "j < length lps"
        by (simp_all add: k_def)
      note fb = window_fallback [OF win1 mb q1(2)]
      show ?thesis
      proof (cases "Suc j = length p")
        case full: True
        have step: "kmp_scan t p lps i j ms = kmp_scan t p lps (Suc i) k (ms @ [int a])"
          using lt c jl i by (subst kmp_scan.simps) (simp add: k_def Let_def full [symmetric])
        have occ: "occurs_at t p a"
          using win1 lt i by (simp add: occurs_at_def full [symmetric])
        have "filter (occurs_at t p) [0 ..< a + (Suc j - k)] =
                filter (occurs_at t p) [0 ..< a] @ [a]"
          using kj occ fb(2) by (intro filter_upt_hit) simp_all
        moreover have "Suc i - k = a + (Suc j - k)" using i kj by simp
        ultimately have "scan_inv t p (Suc i) k (ms @ [int a])"
          using fb(1) kj jm lt i ms by (simp add: scan_inv_def)
        moreover have "2 * (length t - Suc i) + k < 2 * (length t - i) + j"
          using lt kj by simp
        ultimately show ?thesis
          using less.hyps [of "Suc i" k "ms @ [int a]"] step by simp
      next
        case part: False
        with jm have sj: "Suc j < length p" by simp
        show ?thesis
        proof (cases "Suc i < length t \<and> p ! Suc j \<noteq> t ! Suc i")
          case mm: True
          have step: "kmp_scan t p lps i j ms = kmp_scan t p lps (Suc i) k ms"
            using lt jm c part jl mm by (subst kmp_scan.simps) (simp add: k_def Let_def)
          have nocc: "\<not> occurs_at t p a"
            using mm sj i by (auto simp: occurs_at_def)
          have "\<not> occurs_at t p s" if "a \<le> s" "s < a + (Suc j - k)" for s
            using that nocc fb(2) [of s] by (cases "s = a") simp_all
          then have "filter (occurs_at t p) [0 ..< a + (Suc j - k)] =
                  filter (occurs_at t p) [0 ..< a]"
            by (intro filter_upt_skip) simp_all
          moreover have "Suc i - k = a + (Suc j - k)" using i kj by simp
          ultimately have "scan_inv t p (Suc i) k ms"
            using fb(1) kj jm lt i ms by (simp add: scan_inv_def)
          moreover have "2 * (length t - Suc i) + k < 2 * (length t - i) + j"
            using lt kj by simp
          ultimately show ?thesis
            using less.hyps [of "Suc i" k ms] step by simp
        next
          case keep: False
          have step: "kmp_scan t p lps i j ms = kmp_scan t p lps (Suc i) (Suc j) ms"
            using lt jm c part keep by (subst kmp_scan.simps) (auto simp: Let_def)
          have "Suc i - Suc j = a" by (simp add: a_def)
          then have "scan_inv t p (Suc i) (Suc j) ms"
            using win1 sj lt ji ms by (simp add: scan_inv_def)
          moreover have "2 * (length t - Suc i) + Suc j < 2 * (length t - i) + j"
            using lt by simp
          ultimately show ?thesis
            using less.hyps [of "Suc i" "Suc j" ms] step by simp
        qed
      qed
    next
      case c: False
      show ?thesis
      proof (cases "j = 0")
        case z: True
        have step: "kmp_scan t p lps i j ms = kmp_scan t p lps (Suc i) 0 ms"
          using lt jm c z by (subst kmp_scan.simps) (simp add: Let_def)
        have nocc: "\<not> occurs_at t p i"
          using c z jm by (auto simp: occurs_at_def)
        have "filter (occurs_at t p) [0 ..< Suc i] = filter (occurs_at t p) [0 ..< i]"
          using nocc by simp
        then have "scan_inv t p (Suc i) 0 ms"
          using jm lt ms i z by (simp add: scan_inv_def)
        moreover have "2 * (length t - Suc i) + 0 < 2 * (length t - i) + j"
          using lt by simp
        ultimately show ?thesis
          using less.hyps [of "Suc i" 0 ms] step by simp
      next
        case nz: False
        have q1: "1 \<le> j" "j \<le> length p" using jm nz by simp_all
        note e = lps_entry [OF lps q1]
        define k where "k = lps ! (j - 1)"
        from e have mb: "max_border p j k" and kj: "k < j" and jl: "j - 1 < length lps"
          by (simp_all add: k_def)
        note fb = window_fallback [OF win mb q1(2)]
        have step: "kmp_scan t p lps i j ms = kmp_scan t p lps i k ms"
          using lt jm c nz jl by (subst kmp_scan.simps) (simp add: k_def Let_def)
        have nocc: "\<not> occurs_at t p a"
          using c jm i by (auto simp: occurs_at_def)
        have "\<not> occurs_at t p s" if "a \<le> s" "s < a + (j - k)" for s
          using that nocc fb(2) [of s] by (cases "s = a") simp_all
        then have "filter (occurs_at t p) [0 ..< a + (j - k)] =
                filter (occurs_at t p) [0 ..< a]"
          by (intro filter_upt_skip) simp_all
        moreover have "i - k = a + (j - k)" using i kj by simp
        ultimately have "scan_inv t p i k ms"
          using fb(1) kj jm "in" i ms by (simp add: scan_inv_def)
        then show ?thesis
          using less.hyps [of i k ms] step kj by simp
      qed
    qed
  qed
qed

lemma occurs_at_slice:
  assumes "p \<noteq> []"
  shows "occurs_at t p s \<longleftrightarrow> take (length p) (drop s t) = p"
proof
  assume occ: "occurs_at t p s"
  then have len: "s + length p \<le> length t" by (simp add: occurs_at_def)
  show "take (length p) (drop s t) = p"
  proof (rule nth_equalityI)
    show "length (take (length p) (drop s t)) = length p" using len by simp
  next
    fix k assume "k < length (take (length p) (drop s t))"
    then have "k < length p" by simp
    with occ len show "take (length p) (drop s t) ! k = p ! k"
      by (simp add: occurs_at_def)
  qed
next
  assume eq: "take (length p) (drop s t) = p"
  have "length (take (length p) (drop s t)) = min (length p) (length t - s)"
    by (simp only: length_take length_drop)
  with eq have "min (length p) (length t - s) = length p" by simp
  moreover have "0 < length p" using assms by simp
  ultimately have len: "s + length p \<le> length t" by linarith
  have "t ! (s + k) = p ! k" if "k < length p" for k
  proof -
    have "take (length p) (drop s t) ! k = t ! (s + k)" using that len by simp
    with eq show ?thesis by simp
  qed
  with len show "occurs_at t p s" by (simp add: occurs_at_def)
qed

lemma occurs_at_bound: "p \<noteq> [] \<Longrightarrow> occurs_at t p s \<Longrightarrow> s < length t"
  by (cases p) (simp_all add: occurs_at_def)

lemma kmp_search_occurrences:
  "kmp_search t p =
     Some (Inr (if p = [] then [] else map int (filter (occurs_at t p) [0 ..< length t])))"
proof (cases "p = [] \<or> t = []")
  case True
  then show ?thesis by (auto simp: kmp_search_def)
next
  case False
  then have p: "p \<noteq> []" and t: "t \<noteq> []" by simp_all
  from lps_inv_init [OF p] obtain lps
    where c: "compute_lps p 1 0 (replicate (length p) 0) = Some (Inr lps)"
      and ok: "lps_ok p lps (length p)"
    using compute_lps_correct by blast
  have "scan_inv t p 0 0 []" using p by (simp add: scan_inv_def)
  from kmp_scan_correct [OF ok this] c p t show ?thesis
    by (simp add: kmp_search_def)
qed

lemma slice_offsets:
  assumes "p \<noteq> []"
  shows "filter (occurs_at t p) [0 ..< length t] =
           filter (\<lambda>s. take (length p) (drop s t) = p) [0 ..< length t]"
    and "set (filter (occurs_at t p) [0 ..< length t]) = {s. take (length p) (drop s t) = p}"
proof -
  show "filter (occurs_at t p) [0 ..< length t] =
          filter (\<lambda>s. take (length p) (drop s t) = p) [0 ..< length t]"
    using occurs_at_slice [OF assms] by (intro filter_cong) simp_all
  show "set (filter (occurs_at t p) [0 ..< length t]) = {s. take (length p) (drop s t) = p}"
    using occurs_at_slice [OF assms] occurs_at_bound [OF assms] by auto
qed

lemma sorted_filter_upt: "sorted_wrt (<) (filter P [0 ..< n])"
  by (rule sorted_wrt_filter) (simp add: sorted_wrt_upt)


section \<open>Linear exact matcher: correctness\<close>

text \<open>
  Claim C1. For every text and pattern, \<open>kmp_search\<close> ends without an exception and
  returns a sequence of non-negative offsets (each the integer of a natural number) in
  ascending order; for a non-empty pattern these are exactly the offsets \<open>s\<close> with
  \<open>text[s:s+|pattern|] == pattern\<close>; for an empty pattern or an empty text the sequence
  is empty.
\<close>

theorem kmp_search_correct:
  "\<exists>ms. kmp_search text pattern = Some (Inr (map int ms)) \<and>
        sorted_wrt (<) ms \<and>
        (pattern \<noteq> [] \<longrightarrow>
           ms = filter (\<lambda>s. take (length pattern) (drop s text) = pattern) [0 ..< length text] \<and>
           set ms = {s. take (length pattern) (drop s text) = pattern}) \<and>
        (pattern = [] \<or> text = [] \<longrightarrow> ms = [])"
proof (cases "pattern = []")
  case True
  then show ?thesis by (simp add: kmp_search_occurrences)
next
  case False
  let ?ms = "filter (occurs_at text pattern) [0 ..< length text]"
  have "kmp_search text pattern = Some (Inr (map int ?ms))"
    using False by (simp add: kmp_search_occurrences)
  moreover have "sorted_wrt (<) ?ms" by (rule sorted_filter_upt)
  moreover have "text = [] \<longrightarrow> ?ms = []" by simp
  ultimately show ?thesis
    using slice_offsets [OF False, of "text"] False by auto
qed

text \<open>The scenario of the specification as an instance.\<close>

theorem kmp_search_correct_witness:
  "kmp_search ''ABABDABACDABABCABAB'' ''ABABCABAB'' = Some (Inr [10])"
proof -
  have f: "filter (\<lambda>s. take (length ''ABABCABAB'') (drop s ''ABABDABACDABABCABAB'') = ''ABABCABAB'')
             [0 ..< length ''ABABDABACDABABCABAB''] = [10]"
    by code_simp
  from kmp_search_correct [of "''ABABDABACDABABCABAB''" "''ABABCABAB''"] f show ?thesis
    by auto
qed

section \<open>Batch dispatch and fuzzy windows\<close>

lemma chunks_of_concat: "0 < k \<Longrightarrow> concat (chunks_of k xs) = xs"
proof (induction k xs rule: chunks_of.induct)
  case (1 k xs)
  show ?case
  proof (cases "xs = []")
    case True
    then show ?thesis by (subst chunks_of.simps) simp
  next
    case False
    with 1 have "concat (chunks_of k (drop k xs)) = drop k xs" by simp
    with False "1.prems" show ?thesis by (subst chunks_of.simps) simp
  qed
qed

lemma chunksize_pos:
  assumes "0 < len" and "0 < n"
  shows "0 < chunksize len n"
proof (cases "len mod (n * 4) = 0")
  case True
  with div_mult_mod_eq [of len "n * 4"] have "len div (n * 4) * (n * 4) = len" by simp
  with assms(1) have "0 < len div (n * 4)" by (cases "len div (n * 4)") simp_all
  with assms True show ?thesis by (simp add: chunksize_def)
next
  case False
  with assms show ?thesis by (simp add: chunksize_def)
qed

lemma starmap_gather:
  assumes "0 < n"
  shows "starmap n f jobs = gather (map f jobs)"
proof (cases "jobs = []")
  case True
  then show ?thesis by (simp add: starmap_def chunks_of.simps)
next
  case False
  then have "0 < chunksize (length jobs) n" using assms by (intro chunksize_pos) simp_all
  then have "concat (chunks_of (chunksize (length jobs) n) jobs) = jobs"
    by (rule chunks_of_concat)
  then have "concat (map (map f) (chunks_of (chunksize (length jobs) n) jobs)) = map f jobs"
    by (simp add: map_concat [symmetric])
  then show ?thesis by (simp add: starmap_def)
qed

lemma gather_all:
  assumes "\<And>x. x \<in> set xs \<Longrightarrow> f x = Some (Inr (g x))"
  shows "gather (map f xs) = Some (Inr (map g xs))"
  using assms by (induction xs) simp_all

lemma hamming_zero:
  assumes "length xs = length ys"
  shows "hamming xs ys = 0 \<longleftrightarrow> xs = ys"
proof -
  have "hamming xs ys = 0 \<longleftrightarrow> (\<forall>(a, b) \<in> set (zip xs ys). a = b)"
    by (auto simp: hamming_def filter_empty_conv)
  also have "\<dots> \<longleftrightarrow> xs = ys"
    using assms by (simp add: list_eq_iff_zip_eq)
  finally show ?thesis .
qed

lemma fuzzy_windows_starts:
  "map start_pos (fuzzy_windows t p d xs) =
     filter (\<lambda>i. int (hamming (take (length p) (drop i t)) p) \<le> d) xs"
  by (induction xs) (simp_all add: Let_def)

lemma fuzzy_windows_score:
  "r \<in> set (fuzzy_windows t p d xs) \<Longrightarrow> int (score r) \<le> d"
  by (induction xs) (auto simp: Let_def split: if_splits)

lemma exact_window:
  assumes "p \<noteq> []" and "i + length p \<le> length t"
  shows "int (hamming (take (length p) (drop i t)) p) \<le> 0 \<longleftrightarrow> occurs_at t p i"
proof -
  have "length (take (length p) (drop i t)) = length p" using assms(2) by simp
  then have "hamming (take (length p) (drop i t)) p = 0 \<longleftrightarrow> take (length p) (drop i t) = p"
    by (rule hamming_zero)
  with occurs_at_slice [OF assms(1), of t i] show ?thesis by simp
qed

lemma fuzzy_exact_starts:
  assumes "p \<noteq> []"
  shows "map start_pos (fuzzy_regex_search t p 0) = filter (occurs_at t p) [0 ..< length t]"
proof -
  let ?b = "Suc (length t) - length p"
  have r: "range_py (int (length t) - int (length p) + 1) = [0 ..< ?b]"
    by (auto simp: range_py_def intro: arg_cong [where f = "\<lambda>n. [0 ..< n]"])
  have pos: "0 < length p" using assms by simp
  have "filter (\<lambda>i. int (hamming (take (length p) (drop i t)) p) \<le> 0) [0 ..< ?b] =
          filter (occurs_at t p) [0 ..< ?b]"
  proof (rule filter_cong [OF refl])
    fix i assume "i \<in> set [0 ..< ?b]"
    then have "i + length p \<le> length t" by auto
    with assms show "(int (hamming (take (length p) (drop i t)) p) \<le> 0) = occurs_at t p i"
      by (rule exact_window)
  qed
  moreover have "filter (occurs_at t p) [0 ..< length t] = filter (occurs_at t p) [0 ..< ?b]"
  proof (rule filter_upt_skip)
    show "?b \<le> length t" using pos by linarith
  next
    fix s assume "?b \<le> s"
    then have "\<not> s + length p \<le> length t" using pos by linarith
    then show "\<not> occurs_at t p s" by (simp add: occurs_at_def)
  qed
  ultimately show ?thesis
    by (simp add: fuzzy_regex_search_def r fuzzy_windows_starts)
qed

text \<open>
  Claim C2. For every list of texts, every pattern and every worker count of at least one,
  \<open>parallel_search\<close> returns a list with one entry per text, in the order of the texts,
  and its entry \<open>i\<close> is what \<open>kmp_search\<close> returns for text \<open>i\<close> and the pattern: the
  worker count changes how the jobs are cut into chunks, not the result.
\<close>

theorem parallel_search_in_input_order:
  assumes "1 \<le> n_workers"
  shows "\<exists>rs. parallel_search texts pattern n_workers = Some (Inr rs) \<and>
              length rs = length texts \<and>
              (\<forall>i < length texts. kmp_search (texts ! i) pattern = Some (Inr (rs ! i)))"
proof -
  let ?g = "\<lambda>(t, p). if p = [] then [] else map int (filter (occurs_at t p) [0 ..< length t])"
  let ?jobs = "map (\<lambda>t. (t, pattern)) texts"
  have "0 < nat n_workers" using assms by simp
  then have "starmap (nat n_workers) (\<lambda>(t, p). kmp_search t p) ?jobs =
               gather (map (\<lambda>(t, p). kmp_search t p) ?jobs)"
    by (rule starmap_gather)
  also have "\<dots> = Some (Inr (map ?g ?jobs))"
    by (rule gather_all) (auto simp: kmp_search_occurrences)
  finally have "parallel_search texts pattern n_workers = Some (Inr (map ?g ?jobs))"
    using assms by (simp add: parallel_search_def)
  moreover have "kmp_search (texts ! i) pattern = Some (Inr (map ?g ?jobs ! i))"
    if "i < length texts" for i
    using that by (simp add: kmp_search_occurrences)
  ultimately show ?thesis by simp
qed

text \<open>An instance with three texts and two workers.\<close>

theorem parallel_search_in_input_order_witness:
  "parallel_search [''abab'', ''b'', ''ab''] ''ab'' 2 = Some (Inr [[0, 2], [], [0]])"
proof -
  let ?texts = "[''abab'', ''b'', ''ab'']"
  from parallel_search_in_input_order [of 2 ?texts "''ab''"]
  obtain rs where ps: "parallel_search ?texts ''ab'' 2 = Some (Inr rs)"
    and len: "length rs = 3"
    and e: "\<And>i. i < 3 \<Longrightarrow> kmp_search (?texts ! i) ''ab'' = Some (Inr (rs ! i))"
    by auto
  have k: "kmp_search ''abab'' ''ab'' = Some (Inr [0, 2])"
    "kmp_search ''b'' ''ab'' = Some (Inr [])"
    "kmp_search ''ab'' ''ab'' = Some (Inr [0])"
    by (simp_all add: kmp_search_def compute_lps.simps kmp_scan.simps)
  from len obtain a b c where rs: "rs = [a, b, c]"
    by (auto simp: length_Suc_conv numeral_3_eq_3)
  from e [of 0] e [of 1] e [of 2] k rs have "a = [0, 2]" "b = []" "c = [0]"
    by simp_all
  with ps rs show ?thesis by simp
qed

text \<open>
  Claim C5, as stated, covers every pattern. For the empty pattern \<open>kmp_search\<close> returns no
  offset, by its guard, while the fuzzy scan with distance 0 reports every offset from 0
  to the length of the text: on the text "a" the offsets 0 and 1.
\<close>

theorem kmp_differs_from_fuzzy_on_empty_pattern:
  "\<not> (\<exists>ms. kmp_search ''a'' '''' = Some (Inr ms) \<and>
          set ms = (\<lambda>r. int (start_pos r)) ` set (fuzzy_regex_search ''a'' '''' 0))"
  by (simp add: kmp_search_def fuzzy_regex_search_def range_py_def hamming_def upt_rec)

text \<open>
  Claim C5, amended. For every text and every non-empty pattern, the offsets that
  \<open>kmp_search\<close> returns are the start offsets of the results of
  \<open>fuzzy_regex_search\<close> with distance 0, in the same order, and each of these results
  has score 0.
\<close>

theorem kmp_equals_exact_fuzzy:
  assumes "pattern \<noteq> []"
  shows "kmp_search text pattern =
           Some (Inr (map (\<lambda>r. int (start_pos r)) (fuzzy_regex_search text pattern 0))) \<and>
         (\<forall>r \<in> set (fuzzy_regex_search text pattern 0). score r = 0)"
proof -
  have "map (\<lambda>r. int (start_pos r)) (fuzzy_regex_search text pattern 0) =
          map int (map start_pos (fuzzy_regex_search text pattern 0))"
    by simp
  also have "\<dots> = map int (filter (occurs_at text pattern) [0 ..< length text])"
    by (simp only: fuzzy_exact_starts [OF assms])
  finally have "kmp_search text pattern =
      Some (Inr (map (\<lambda>r. int (start_pos r)) (fuzzy_regex_search text pattern 0)))"
    using assms by (simp add: kmp_search_occurrences)
  moreover have "score r = 0" if "r \<in> set (fuzzy_regex_search text pattern 0)" for r
    using fuzzy_windows_score [of r "text" "pattern" 0] that
    by (simp add: fuzzy_regex_search_def)
  ultimately show ?thesis by blast
qed

text \<open>An instance with two occurrences.\<close>

theorem kmp_equals_exact_fuzzy_witness:
  "kmp_search ''abcab'' ''ab'' = Some (Inr [0, 3]) \<and>
   list_all (\<lambda>r. score r = 0) (fuzzy_regex_search ''abcab'' ''ab'' 0)"
proof -
  have s: "map (\<lambda>r. int (start_pos r)) (fuzzy_regex_search ''abcab'' ''ab'' 0) = [0, 3]"
    by (simp add: fuzzy_regex_search_def range_py_def hamming_def upt_rec)
  from kmp_equals_exact_fuzzy [of "''ab''" "''abcab''"] s show ?thesis
    by (simp add: list_all_iff)
qed

section \<open>Scenarios\<close>

text \<open>
  Claim C3. The wildcard matcher, started at text position 0 and pattern position 0 on the
  text "abcdefg" and the pattern "a*b?d", returns false: the function of
  "Pattern matcher i.py" and the method of a freshly constructed matcher both do.
\<close>

theorem wildcard_scenario_false:
  "wildcard_match_i ''abcdefg'' ''a*b?d'' = Inr False \<and>
   fst (wildcard_match ''abcdefg'' ''a*b?d'' 0 0 init) = Inr False"
  by (simp add: wildcard_match_i_def dfs.simps wildcard_match.simps init_def lru_get_def
      lru_put_def maxsize_def)



section \<open>Wildcard matcher: properties\<close>



section \<open>Motif scanner: the recurrence\<close>



section \<open>Hidden state\<close>



section \<open>Error conditions\<close>

text \<open>
  Claim C8. For every worker count that is zero or negative, \<open>parallel_search\<close> fails
  rather than returning a result: the pool's constructor raises \<open>ValueError\<close>, the
  invalid-configuration condition, whatever the texts and the pattern are.
\<close>

theorem parallel_search_rejects_worker_count:
  "n_workers \<le> 0 \<Longrightarrow> parallel_search texts pattern n_workers = Some (Inl ValueError)"
  by (simp add: parallel_search_def)

theorem parallel_search_rejects_worker_count_witness:
  "(0::int) \<le> 0 \<and> parallel_search [''abab'', ''ab''] ''ab'' 0 = Some (Inl ValueError)"
  using parallel_search_rejects_worker_count [of 0 "[''abab'', ''ab'']" "''ab''"] by simp

text \<open>
  Claim C10 says that no operation aborts its caller. \<open>analyze_all\<close> with an empty list of
  patterns does: its three loops over the patterns do nothing, and the subscript
  \<open>patterns[0]\<close> of the fuzzy scan then raises \<open>IndexError\<close>, for every text, every motif
  budget and every state of the matcher.
\<close>

theorem analyze_all_empty_patterns_raises:
  "analyze_all text [] max_motif_dist s = Some (Inl IndexError, s)"
  by (simp add: analyze_all_def)

end
